theory Spec2Isabelle
  imports Main
begin

section \<open>Intercepted requests (lib/http\_request.js)\<close>

text \<open>
  A shallow embedding of the class \<open>HttpRequest\<close>: an intercepted request that a chain of
  client handlers resolves by one of the commands \<open>Fetch.failRequest\<close>,
  \<open>Fetch.continueRequest\<close> and \<open>Fetch.fulfillRequest\<close> of the browser's protocol session.
  The calls to \<open>debugServer\<close> only write to a debug log and are left out.
\<close>

subsection \<open>Values sent over the session\<close>

text \<open>
  The parameters of a command are a JavaScript object. An object is an association list in
  the insertion order of its keys, the order in which JavaScript enumerates them.
\<close>

datatype json =
    JStr string
  | JNum int
  | JArr "json list"
  | JObj "(string \<times> json) list"

text \<open>\<open>obj.key = v\<close>: an existing key keeps its place, a new key goes last.\<close>

fun assign :: "string \<Rightarrow> json \<Rightarrow> (string \<times> json) list \<Rightarrow> (string \<times> json) list" where
  "assign k v [] = [(k, v)]"
| "assign k v ((k', v') # kvs) = (if k' = k then (k, v) # kvs else (k', v') # assign k v kvs)"

text \<open>A command is its name and its parameter object.\<close>

datatype command = Command string "(string \<times> json) list"

text \<open>
  The session is owned by the host; here it is the list of the commands sent through it,
  oldest first. \<open>send\<close> always acknowledges.
\<close>

type_synonym CDPSession = "command list"

definition send :: "string \<Rightarrow> (string \<times> json) list \<Rightarrow> CDPSession \<Rightarrow> CDPSession" where
  "send name ps session = session @ [Command name ps]"

subsection \<open>Strings and buffers of the JavaScript runtime\<close>

text \<open>
  \<open>String.prototype.toLowerCase\<close> on the ASCII letters, which is what header names are
  made of; every other character is kept.
\<close>

definition lower_char :: "char \<Rightarrow> char" where
  "lower_char c =
     (let n = (of_char c :: nat) in if 65 \<le> n \<and> n \<le> 90 then char_of (n + 32) else c)"

definition toLowerCase :: "string \<Rightarrow> string" where
  "toLowerCase s = map lower_char s"

text \<open>\<open>String(n)\<close> for a natural number: its decimal digits.\<close>

definition digit :: "nat \<Rightarrow> char" where
  "digit d = char_of (48 + d)"

fun String :: "nat \<Rightarrow> string" where
  "String n = (if n < 10 then [digit n] else String (n div 10) @ [digit (n mod 10)])"

declare String.simps [simp del]

text \<open>
  A \<open>Buffer\<close> is a sequence of bytes. The \<open>body\<close> of \<open>fulfill\<close> is documented as a
  \<open>Buffer\<close>, and nothing in the code stops a caller from passing a string: both are
  modelled. A string is given by the bytes of its UTF-8 encoding, which is what
  \<open>Buffer.byteLength\<close> counts.
\<close>

type_synonym Buffer = "char list"

datatype body = BufferBody Buffer | StringBody string

fun byteLength :: "body \<Rightarrow> nat" where
  "byteLength (BufferBody b) = length b"
| "byteLength (StringBody str) = length str"

text \<open>A \<open>Buffer\<close> is an object and always truthy; a string is truthy when not empty.\<close>

fun truthy_body :: "body \<Rightarrow> bool" where
  "truthy_body (BufferBody b) = True"
| "truthy_body (StringBody str) = (str \<noteq> [])"

text \<open>
  \<open>buffer.toString('base64')\<close>: the base64 encoding of RFC 4648, with padding.
\<close>

definition base64_alphabet :: string where
  "base64_alphabet = ''ABCDEFGHIJKLMNOPQRSTUVWXYZabcdefghijklmnopqrstuvwxyz0123456789+/''"

definition sextet :: "nat \<Rightarrow> char" where
  "sextet n = base64_alphabet ! (n mod 64)"

fun base64_groups :: "nat list \<Rightarrow> string" where
  "base64_groups [] = []"
| "base64_groups [a] =
     [sextet (a div 4), sextet ((a mod 4) * 16), CHR ''='', CHR ''='']"
| "base64_groups [a, b] =
     [sextet (a div 4), sextet ((a mod 4) * 16 + b div 16), sextet ((b mod 16) * 4), CHR ''='']"
| "base64_groups (a # b # c # bs) =
     [sextet (a div 4), sextet ((a mod 4) * 16 + b div 16),
      sextet ((b mod 16) * 4 + c div 64), sextet (c mod 64)] @ base64_groups bs"

definition toString_base64 :: "Buffer \<Rightarrow> string" where
  "toString_base64 b = base64_groups (map of_char b)"

text \<open>
  \<open>responseBuffer.toString('base64')\<close>: on a \<open>Buffer\<close> the base64 encoding; on a string
  \<open>String.prototype.toString\<close>, which takes no argument and returns the string itself.
\<close>

fun toString :: "body \<Rightarrow> string" where
  "toString (BufferBody b) = toString_base64 b"
| "toString (StringBody str) = str"

text \<open>The decoder of the same encoding; \<open>None\<close> on a string that is not base64.\<close>

definition sextet_value :: "char \<Rightarrow> nat option" where
  "sextet_value c = map_of (zip base64_alphabet [0..<64]) c"

fun base64_decode :: "string \<Rightarrow> Buffer option" where
  "base64_decode [] = Some []"
| "base64_decode (a # b # c # d # rest) =
     (case (sextet_value a, sextet_value b) of
        (Some x, Some y) \<Rightarrow>
          (if c = CHR ''='' \<and> d = CHR ''='' \<and> rest = [] then
             (if (y mod 16) = 0 then Some [char_of (x * 4 + y div 16)] else None)
           else
             (case sextet_value c of
                None \<Rightarrow> None
              | Some z \<Rightarrow>
                  (if d = CHR ''='' \<and> rest = [] then
                     (if z mod 4 = 0
                      then Some [char_of (x * 4 + y div 16), char_of ((y mod 16) * 16 + z div 4)]
                      else None)
                   else
                     (case (sextet_value d, base64_decode rest) of
                        (Some w, Some bs) \<Rightarrow>
                          Some (char_of (x * 4 + y div 16) # char_of ((y mod 16) * 16 + z div 4)
                                # char_of ((z mod 4) * 64 + w) # bs)
                      | _ \<Rightarrow> None))))
      | _ \<Rightarrow> None)"
| "base64_decode _ = None"

subsection \<open>The intercepted request\<close>

text \<open>
  The notification of the session: \<open>params.requestId\<close>, \<open>params.request\<close> with its
  \<open>url\<close>, \<open>method\<close> and optional \<open>headers\<close>, and \<open>params.resourceType\<close>.
\<close>

record request =
  request_url :: string
  request_method :: string
  request_headers :: "(string \<times> string) list option"

record params =
  requestId :: string
  request :: request
  params_resourceType :: string

text \<open>
  The argument of \<open>deferToBrowser\<close>, of type
  \<open>{url: string|undefined, method: string|undefined, headers: Object|undefined}\<close>, and
  the argument of \<open>fulfill\<close>, of type
  \<open>{status: number|undefined, headers: Object|undefined, body: Buffer|undefined}\<close>.
  \<open>None\<close> is \<open>undefined\<close>. The \<open>body\<close> may also be a string, see above.
\<close>

record overrides =
  override_url :: "string option"
  override_method :: "string option"
  override_headers :: "(string \<times> string) list option"

record options =
  options_status :: "int option"
  options_headers :: "(string \<times> string) list option"
  options_body :: "body option"

text \<open>
  A handler is a JavaScript function that receives the request. It is modelled by the
  calls it makes on the request, in order, each made synchronously: a handler that calls
  \<open>continue()\<close> gets control back when the handlers after it have returned.
\<close>

datatype call =
    Abort
  | Fail
  | Continue
  | DeferToBrowser "overrides option"
  | Fulfill options

type_synonym handler = "call list"

text \<open>
  The fields of the object, and \<open>invoked\<close>: the handlers that have been called with the
  request so far, oldest first (a trace; the code has no such field). A name cannot end
  with an underscore here, so the underscore of \<open>session_\<close>, \<open>params_\<close>,
  \<open>handlers_\<close>, \<open>done_\<close>, \<open>callNextHandler_\<close> and \<open>resolve_\<close> is written as a
  prime; the accessor \<open>method()\<close> is \<open>method'\<close>.
\<close>

record HttpRequest =
  session' :: CDPSession
  params' :: params
  handlers' :: "handler list"
  done' :: bool
  invoked :: "handler list"

text \<open>The error of \<open>resolve_\<close>, \<open>Error('Already resolved given request')\<close>.\<close>

datatype error = AlreadyResolved

subsection \<open>Accessors\<close>

definition url :: "HttpRequest \<Rightarrow> string" where
  "url this = request_url (request (params' this))"

definition method' :: "HttpRequest \<Rightarrow> string" where
  "method' this = request_method (request (params' this))"

definition headers :: "HttpRequest \<Rightarrow> (string \<times> string) list" where
  "headers this = (case request_headers (request (params' this)) of None \<Rightarrow> [] | Some h \<Rightarrow> h)"

definition resourceType :: "HttpRequest \<Rightarrow> string" where
  "resourceType this = params_resourceType (params' this)"

subsection \<open>Decision methods\<close>

text \<open>
  A method that returns the promise of \<open>send\<close> yields \<open>Inr ()\<close>. \<open>resolve_\<close> is an
  \<open>async\<close> function: its \<open>throw\<close> is a rejected promise, \<open>Inl\<close> of the error, and the
  caller runs on.
\<close>

definition abort :: "HttpRequest \<Rightarrow> (error + unit) \<times> HttpRequest" where
  "abort this =
     (Inr (),
      this\<lparr>done' := True,
           session' := send ''Fetch.failRequest''
             [(''requestId'', JStr (requestId (params' this))),
              (''errorReason'', JStr ''Failed'')]
             (session' this)\<rparr>)"

definition fail :: "HttpRequest \<Rightarrow> (error + unit) \<times> HttpRequest" where
  "fail this =
     (Inr (),
      this\<lparr>done' := True,
           session' := send ''Fetch.failRequest''
             [(''requestId'', JStr (requestId (params' this))),
              (''errorReason'', JStr ''Failed'')]
             (session' this)\<rparr>)"

definition resolve' :: "(string \<times> json) list \<Rightarrow> HttpRequest \<Rightarrow> (error + unit) \<times> HttpRequest" where
  "resolve' ps this =
     (if done' this then (Inl AlreadyResolved, this)
      else
        (Inr (),
         this\<lparr>done' := True,
              session' := send ''Fetch.continueRequest''
                (assign ''requestId'' (JStr (requestId (params' this))) ps)
                (session' this)\<rparr>))"

text \<open>
  \<open>overrides && overrides.url\<close> is \<open>undefined\<close> when there is no \<open>overrides\<close>, and the
  field otherwise. A string is truthy when it is not empty, an object always.
\<close>

definition and_field :: "'a option \<Rightarrow> ('a \<Rightarrow> 'b option) \<Rightarrow> 'b option" where
  "and_field obj f = (case obj of None \<Rightarrow> None | Some ob \<Rightarrow> f ob)"

definition truthy :: "string option \<Rightarrow> bool" where
  "truthy v = (case v of None \<Rightarrow> False | Some str \<Rightarrow> str \<noteq> [])"

definition headers_object :: "(string \<times> string) list \<Rightarrow> json" where
  "headers_object h = JObj (map (\<lambda>(k, v). (k, JStr v)) h)"

definition deferToBrowser :: "overrides option \<Rightarrow> HttpRequest \<Rightarrow> (error + unit) \<times> HttpRequest" where
  "deferToBrowser ovr this =
     (let ps = [];
          ps = (case and_field ovr override_url of
                  Some u \<Rightarrow> if truthy (Some u) then assign ''url'' (JStr u) ps else ps
                | None \<Rightarrow> ps);
          ps = (case and_field ovr override_method of
                  Some m \<Rightarrow> if truthy (Some m) then assign ''method'' (JStr m) ps else ps
                | None \<Rightarrow> ps);
          ps = (case and_field ovr override_headers of
                  Some h \<Rightarrow> assign ''headers'' (headers_object h) ps
                | None \<Rightarrow> ps)
      in resolve' ps this)"

text \<open>
  The loop of \<open>fulfill\<close> over \<open>Object.keys(headers)\<close>, with its two variables
  \<open>responseHeaders\<close> and \<open>hasContentLength\<close>.
\<close>

fun fulfill_headers :: "(string \<times> string) list \<Rightarrow> json list \<Rightarrow> bool \<Rightarrow> json list \<times> bool" where
  "fulfill_headers [] responseHeaders hasContentLength = (responseHeaders, hasContentLength)"
| "fulfill_headers ((header, v) # rest) responseHeaders hasContentLength =
     (let headerName = toLowerCase header;
          hasContentLength = (if headerName = ''content-length'' then True else hasContentLength)
      in fulfill_headers rest
           (responseHeaders @ [JObj [(''name'', JStr headerName), (''value'', JStr v)]])
           hasContentLength)"

text \<open>
  \<open>status || 200\<close>: the number \<open>0\<close> is falsy, as \<open>undefined\<close> is. In
  \<open>body && !hasContentLength\<close> and \<open>body || Buffer.from('')\<close> a \<open>Buffer\<close> is truthy
  whenever it is given, also when it is empty; an empty string is falsy.
\<close>

definition fulfill :: "options \<Rightarrow> HttpRequest \<Rightarrow> (error + unit) \<times> HttpRequest" where
  "fulfill opts this =
     (let status = (case options_status opts of
                      None \<Rightarrow> 200
                    | Some n \<Rightarrow> if n = 0 then 200 else n);
          (responseHeaders, hasContentLength) =
             (case options_headers opts of
                None \<Rightarrow> ([], False)
              | Some h \<Rightarrow> fulfill_headers h [] False);
          responseHeaders =
             (case options_body opts of
                Some b \<Rightarrow>
                  if truthy_body b \<and> \<not> hasContentLength
                  then responseHeaders @
                         [JObj [(''name'', JStr ''content-length''),
                                (''value'', JStr (String (byteLength b)))]]
                  else responseHeaders
              | None \<Rightarrow> responseHeaders);
          responseBuffer =
             (case options_body opts of
                Some b \<Rightarrow> if truthy_body b then b else BufferBody []
              | None \<Rightarrow> BufferBody [])
      in (Inr (),
          this\<lparr>done' := True,
               session' := send ''Fetch.fulfillRequest''
                 [(''requestId'', JStr (requestId (params' this))),
                  (''responseCode'', JNum status),
                  (''responseHeaders'', JArr responseHeaders),
                  (''body'', JStr (toString responseBuffer))]
                 (session' this)\<rparr>))"

subsection \<open>The handler chain\<close>

text \<open>
  \<open>callNextHandler_\<close> shifts the first handler off \<open>handlers_\<close>. With no handler left
  it calls \<open>resolve_({})\<close> and drops the promise. Otherwise it calls the handler with the
  request: the handler is returned here, and \<open>run\<close> below executes its calls before the
  remaining calls of the caller, which is the order of a synchronous call.
\<close>

definition callNextHandler' :: "HttpRequest \<Rightarrow> handler option \<times> HttpRequest" where
  "callNextHandler' this =
     (case handlers' this of
        [] \<Rightarrow> (None, snd (resolve' [] this))
      | handler # rest \<Rightarrow>
          (Some handler, this\<lparr>handlers' := rest, invoked := invoked this @ [handler]\<rparr>))"

definition continue :: "HttpRequest \<Rightarrow> handler option \<times> HttpRequest" where
  "continue this = callNextHandler' this"

function run :: "handler \<Rightarrow> HttpRequest \<Rightarrow> HttpRequest" where
  "run [] this = this"
| "run (Abort # cs) this = run cs (snd (abort this))"
| "run (Fail # cs) this = run cs (snd (fail this))"
| "run (Continue # cs) this =
     (case continue this of
        (None, this') \<Rightarrow> run cs this'
      | (Some handler, this') \<Rightarrow> run (handler @ cs) this')"
| "run (DeferToBrowser ovr # cs) this = run cs (snd (deferToBrowser ovr this))"
| "run (Fulfill opts # cs) this = run cs (snd (fulfill opts this))"
  by pat_completeness auto
termination
  by (relation "measure (\<lambda>(cs, this). length cs + (\<Sum>h\<leftarrow>handlers' this. Suc (length h)))")
     (auto simp: abort_def fail_def continue_def callNextHandler'_def resolve'_def
        deferToBrowser_def fulfill_def Let_def split: list.splits if_splits prod.splits)

text \<open>
  The constructor stores its arguments, clears \<open>done_\<close> and calls \<open>callNextHandler_\<close>.
  \<open>session\<close> holds what the session was sent before.
\<close>

definition constructor :: "CDPSession \<Rightarrow> params \<Rightarrow> handler list \<Rightarrow> HttpRequest" where
  "constructor session ps handlers =
     (let this = \<lparr>session' = session, params' = ps, handlers' = handlers, done' = False,
                  invoked = []\<rparr>
      in case callNextHandler' this of
           (None, this') \<Rightarrow> this'
         | (Some handler, this') \<Rightarrow> run handler this')"

text \<open>
  A handler that is called runs all of its calls, since none of them throws. So a handler
  that has been called has called \<open>continue()\<close> exactly when \<open>Continue\<close> is one of its
  calls.
\<close>

definition calls_continue :: "handler \<Rightarrow> bool" where
  "calls_continue h = (Continue \<in> set h)"

text \<open>
  The handlers called are always the first ones of the registration list (lemma
  \<open>constructor_registration_order\<close> below), so the handler at position \<open>k\<close> (from 0) has
  been called exactly when \<open>k\<close> is below the number of handlers called.
\<close>

definition handler_invoked :: "nat \<Rightarrow> HttpRequest \<Rightarrow> bool" where
  "handler_invoked k this = (k < length (invoked this))"

text \<open>
  The calls that reach \<open>resolve_\<close>, the one place where \<open>done_\<close> is read.
\<close>

fun guarded :: "call \<Rightarrow> bool" where
  "guarded Continue = True"
| "guarded (DeferToBrowser ovr) = True"
| "guarded c = False"

text \<open>A notification for the examples.\<close>

definition example_params :: params where
  "example_params =
     \<lparr>requestId = ''interception-1'',
      request = \<lparr>request_url = ''https://example.com/'', request_method = ''GET'',
                 request_headers = None\<rparr>,
      params_resourceType = ''Document''\<rparr>"

section \<open>What every call leaves unchanged\<close>

lemma abort_frame:
  "params' (snd (abort this)) = params' this"
  "handlers' (snd (abort this)) = handlers' this"
  "invoked (snd (abort this)) = invoked this"
  by (simp_all add: abort_def)

lemma fail_frame:
  "params' (snd (fail this)) = params' this"
  "handlers' (snd (fail this)) = handlers' this"
  "invoked (snd (fail this)) = invoked this"
  by (simp_all add: fail_def)

lemma resolve_frame:
  "params' (snd (resolve' ps this)) = params' this"
  "handlers' (snd (resolve' ps this)) = handlers' this"
  "invoked (snd (resolve' ps this)) = invoked this"
  by (simp_all add: resolve'_def)

lemma deferToBrowser_frame:
  "params' (snd (deferToBrowser ovr this)) = params' this"
  "handlers' (snd (deferToBrowser ovr this)) = handlers' this"
  "invoked (snd (deferToBrowser ovr this)) = invoked this"
  by (simp_all add: deferToBrowser_def Let_def resolve_frame)

lemma fulfill_frame:
  "params' (snd (fulfill opts this)) = params' this"
  "handlers' (snd (fulfill opts this)) = handlers' this"
  "invoked (snd (fulfill opts this)) = invoked this"
  by (simp_all add: fulfill_def Let_def split: prod.splits)

lemma continue_frame:
  "params' (snd (continue this)) = params' this"
  "invoked (snd (continue this)) @ handlers' (snd (continue this)) =
     invoked this @ handlers' this"
  by (simp_all add: continue_def callNextHandler'_def resolve_frame split: list.splits)

lemma run_params: "params' (run cs this) = params' this"
proof (induction cs this rule: run.induct)
  case (4 cs this)
  then show ?case
    using continue_frame(1) [of this]
    by (cases "continue this") (auto split: option.splits)
qed (simp_all add: abort_frame fail_frame deferToBrowser_frame fulfill_frame)

text \<open>
  The handlers called, followed by the handlers still queued, are the registration list:
  handlers are called in registration order, and none is called twice.
\<close>

lemma run_registration_order:
  "invoked (run cs this) @ handlers' (run cs this) = invoked this @ handlers' this"
proof (induction cs this rule: run.induct)
  case (4 cs this)
  then show ?case
    using continue_frame(2) [of this]
    by (cases "continue this") (auto split: option.splits)
qed (simp_all add: abort_frame fail_frame deferToBrowser_frame fulfill_frame)

lemma constructor_run:
  "constructor session ps hs =
     run [Continue] \<lparr>session' = session, params' = ps, handlers' = hs, done' = False,
                     invoked = []\<rparr>"
  by (simp add: constructor_def continue_def Let_def split: prod.splits option.splits)

lemma constructor_params: "params' (constructor session ps hs) = ps"
  by (simp only: constructor_run run_params) simp

lemma constructor_registration_order:
  "invoked (constructor session ps hs) @ handlers' (constructor session ps hs) = hs"
  by (simp only: constructor_run run_registration_order) simp

section \<open>The order of the handlers\<close>

text \<open>
  When the running calls and every queued handler call \<open>continue()\<close> at most once, one
  \<open>continue()\<close> takes off the queue the handlers that pass the request on, and the first
  one that does not.
\<close>

lemma run_single_continue:
  "count_list cs Continue \<le> 1 \<Longrightarrow> \<forall>h\<in>set (handlers' this). count_list h Continue \<le> 1 \<Longrightarrow>
   handlers' (run cs this) =
     (if Continue \<in> set cs
      then drop (Suc (length (takeWhile calls_continue (handlers' this)))) (handlers' this)
      else handlers' this)"
proof (induction cs this rule: run.induct)
  case (4 cs this)
  from "4.prems"(1) have no: "Continue \<notin> set cs"
    by (auto simp: count_list_0_iff)
  show ?case
  proof (cases "handlers' this")
    case Nil
    then have c: "continue this = (None, snd (resolve' [] this))"
      by (simp add: continue_def callNextHandler'_def)
    from "4.IH"(1) [OF c [symmetric] refl] "4.prems" Nil no show ?thesis
      by (simp add: c resolve_frame)
  next
    case (Cons h hs)
    then have c: "continue this =
        (Some h, this\<lparr>handlers' := hs, invoked := invoked this @ [h]\<rparr>)"
      by (simp add: continue_def callNextHandler'_def)
    from "4.prems" Cons no have "count_list (h @ cs) Continue \<le> 1"
      by (simp add: count_list_0_iff)
    with "4.IH"(2) [OF c [symmetric] refl] "4.prems" Cons no show ?thesis
      by (simp add: c calls_continue_def)
  qed
qed (simp_all add: abort_frame fail_frame deferToBrowser_frame fulfill_frame split: if_splits)

lemma takeWhile_length_iff:
  "k < length xs \<Longrightarrow> (k \<le> length (takeWhile P xs)) = (\<forall>j<k. P (xs ! j))"
proof (induction xs arbitrary: k)
  case Nil
  then show ?case by simp
next
  case (Cons x xs)
  show ?case
  proof (cases k)
    case 0
    then show ?thesis by simp
  next
    case (Suc k')
    with Cons show ?thesis
      by (auto simp: less_Suc_eq_0_disj)
  qed
qed

lemma constructor_single_continue:
  assumes "\<forall>h\<in>set hs. count_list h Continue \<le> 1"
  shows "invoked (constructor session ps hs) = take (Suc (length (takeWhile calls_continue hs))) hs"
proof -
  let ?r = "constructor session ps hs"
  let ?n = "Suc (length (takeWhile calls_continue hs))"
  have "handlers' ?r = drop ?n hs"
    using assms
    by (simp only: constructor_run) (subst run_single_continue, simp_all)
  with constructor_registration_order [of session ps hs]
  have "invoked ?r @ drop ?n hs = take ?n hs @ drop ?n hs"
    by simp
  then show ?thesis
    by (simp only: append_same_eq)
qed

text \<open>
  Claim C2, as amended. The handlers called followed by the handlers still queued are
  always the registration list, so handlers are called in registration order, front to
  back, and none twice. When every handler calls \<open>continue()\<close> at most once, the handler
  at position \<open>k\<close> is called if and only if every handler registered before it called
  \<open>continue()\<close>, and when the handler at position \<open>k\<close> does not call \<open>continue()\<close>,
  no handler after it is called.
\<close>

theorem handler_chain_order:
  "invoked (constructor session ps hs) @ handlers' (constructor session ps hs) = hs \<and>
   ((\<forall>h\<in>set hs. count_list h Continue \<le> 1) \<longrightarrow> k < length hs \<longrightarrow>
      handler_invoked k (constructor session ps hs) = (\<forall>j<k. calls_continue (hs ! j)) \<and>
      (\<not> calls_continue (hs ! k) \<longrightarrow> length (invoked (constructor session ps hs)) \<le> Suc k))"
proof (intro conjI impI)
  show "invoked (constructor session ps hs) @ handlers' (constructor session ps hs) = hs"
    by (rule constructor_registration_order)
next
  assume once: "\<forall>h\<in>set hs. count_list h Continue \<le> 1" and k: "k < length hs"
  have inv: "invoked (constructor session ps hs) =
      take (Suc (length (takeWhile calls_continue hs))) hs"
    using once by (rule constructor_single_continue)
  from k show "handler_invoked k (constructor session ps hs) = (\<forall>j<k. calls_continue (hs ! j))"
    using takeWhile_length_iff [OF k, of calls_continue]
    by (simp add: handler_invoked_def inv less_Suc_eq_le)
  assume stop: "\<not> calls_continue (hs ! k)"
  have "\<not> Suc k \<le> length (takeWhile calls_continue hs)"
  proof
    assume "Suc k \<le> length (takeWhile calls_continue hs)"
    then have "k < length (takeWhile calls_continue hs)" by simp
    then have "takeWhile calls_continue hs ! k \<in> set (takeWhile calls_continue hs)"
      and "takeWhile calls_continue hs ! k = hs ! k"
      by (rule nth_mem, rule takeWhile_nth)
    then have "calls_continue (hs ! k)"
      by (auto dest: set_takeWhileD)
    with stop show False
      by simp
  qed
  then show "length (invoked (constructor session ps hs)) \<le> Suc k"
    by (simp add: inv)
qed

text \<open>
  An instance: of three handlers, the second aborts instead of calling \<open>continue()\<close>;
  the second is called and the third is not.
\<close>

theorem handler_chain_order_witness:
  "list_all (\<lambda>h. count_list h Continue \<le> 1) [[Continue], [Abort], [Continue]] \<and>
   (2::nat) < length [[Continue], [Abort], [Continue]] \<and>
   handler_invoked 1 (constructor [] example_params [[Continue], [Abort], [Continue]]) \<and>
   \<not> handler_invoked 2 (constructor [] example_params [[Continue], [Abort], [Continue]])"
proof -
  have h: "\<forall>h\<in>set [[Continue], [Abort], [Continue]]. count_list h Continue \<le> 1"
    by simp
  have "(\<forall>j<Suc 0. calls_continue ([[Continue], [Abort], [Continue]] ! j))"
    by (simp add: calls_continue_def)
  moreover have "\<not> (\<forall>j<2. calls_continue ([[Continue], [Abort], [Continue]] ! j))"
    by (auto simp: calls_continue_def intro: exI [of _ 1])
  ultimately show ?thesis
    using h handler_chain_order [of "[]" example_params "[[Continue], [Abort], [Continue]]" 1]
      handler_chain_order [of "[]" example_params "[[Continue], [Abort], [Continue]]" 2]
    by simp
qed

text \<open>
  Claim C2 as stated fails for a handler that calls \<open>continue()\<close> twice: each call shifts
  one handler off the queue, so the third handler is called although the second one
  never called \<open>continue()\<close>.
\<close>

theorem handler_chain_counterexample:
  "handler_invoked 2 (constructor [] example_params [[Continue, Continue], [], []]) \<and>
   \<not> calls_continue ([[Continue, Continue], [], []] ! 1)"
  by code_simp

section \<open>Decisions on a request that is already resolved\<close>

text \<open>
  Claim C1 fails on the code. Only \<open>resolve_\<close> reads \<open>done_\<close>; \<open>abort\<close>, \<open>fail\<close> and
  \<open>fulfill\<close> set it and send without reading it. A handler that calls \<open>abort()\<close>,
  \<open>fail()\<close>, \<open>fulfill({})\<close> and \<open>deferToBrowser()\<close> in turn sends three commands
  for the one request; only the last call is rejected.
\<close>

theorem second_decision_sends_again:
  "session' (constructor [] example_params
      [[Abort, Fail, Fulfill \<lparr>options_status = None, options_headers = None, options_body = None\<rparr>,
        DeferToBrowser None]]) =
     [Command ''Fetch.failRequest''
        [(''requestId'', JStr ''interception-1''), (''errorReason'', JStr ''Failed'')],
      Command ''Fetch.failRequest''
        [(''requestId'', JStr ''interception-1''), (''errorReason'', JStr ''Failed'')],
      Command ''Fetch.fulfillRequest''
        [(''requestId'', JStr ''interception-1''), (''responseCode'', JNum 200),
         (''responseHeaders'', JArr []), (''body'', JStr '''')]]"
  by code_simp

text \<open>
  Claim C8 fails on the code, by the same missing check. A handler calls \<open>continue()\<close>
  twice and the two handlers after it call \<open>abort()\<close>: all three handlers are called, each
  once, and two commands are sent for the one request.
\<close>

theorem double_continue_sends_twice:
  "session' (constructor [] example_params [[Continue, Continue], [Abort], [Abort]]) =
     [Command ''Fetch.failRequest''
        [(''requestId'', JStr ''interception-1''), (''errorReason'', JStr ''Failed'')],
      Command ''Fetch.failRequest''
        [(''requestId'', JStr ''interception-1''), (''errorReason'', JStr ''Failed'')]] \<and>
   invoked (constructor [] example_params [[Continue, Continue], [Abort], [Abort]]) =
     [[Continue, Continue], [Abort], [Abort]]"
  by code_simp

section \<open>The default decision\<close>

text \<open>
  Calls of \<open>continue()\<close> alone, on a queue of handlers that only call \<open>continue()\<close>:
  every handler is called, and the request is resolved by one command unless it was
  resolved before.
\<close>

lemma run_only_continue:
  "set cs \<subseteq> {Continue} \<Longrightarrow> \<forall>h\<in>set (handlers' this). set h = {Continue} \<Longrightarrow>
   run cs this =
     (if cs = [] then this
      else if done' this
        then this\<lparr>handlers' := [], invoked := invoked this @ handlers' this\<rparr>
        else this\<lparr>handlers' := [], invoked := invoked this @ handlers' this, done' := True,
               session' := session' this @
                 [Command ''Fetch.continueRequest''
                    [(''requestId'', JStr (requestId (params' this)))]]\<rparr>)"
proof (induction cs this rule: run.induct)
  case (4 cs this)
  show ?case
  proof (cases "handlers' this")
    case Nil
    then have c: "continue this = (None, snd (resolve' [] this))"
      by (simp add: continue_def callNextHandler'_def)
    from "4.IH"(1) [OF c [symmetric] refl] "4.prems" Nil show ?thesis
      by (simp add: c resolve'_def send_def)
  next
    case (Cons h hs)
    then have c: "continue this =
        (Some h, this\<lparr>handlers' := hs, invoked := invoked this @ [h]\<rparr>)"
      by (simp add: continue_def callNextHandler'_def)
    from "4.prems" Cons have "h \<noteq> []" by auto
    with "4.IH"(2) [OF c [symmetric] refl] "4.prems" Cons show ?thesis
      by (simp add: c)
  qed
qed simp_all

text \<open>
  Claim C3. A request constructed with handlers that each call \<open>continue()\<close> and nothing
  else, the empty handler list included, is resolved by one \<open>Fetch.continueRequest\<close>
  whose parameters are the request id alone: no \<open>url\<close>, \<open>method\<close> or \<open>headers\<close>.
\<close>

theorem exhausted_chain_continues:
  assumes "\<forall>h\<in>set hs. set h = {Continue}"
  shows "constructor session ps hs =
     \<lparr>session' = session @ [Command ''Fetch.continueRequest'' [(''requestId'', JStr (requestId ps))]],
      params' = ps, handlers' = [], done' = True, invoked = hs\<rparr>"
  using assms
  by (simp only: constructor_run) (subst run_only_continue, simp_all)

text \<open>
  Instances: no handler at all, and two handlers of which the second calls
  \<open>continue()\<close> twice.
\<close>

theorem exhausted_chain_continues_witness:
  "constructor [] example_params [] =
     \<lparr>session' = [Command ''Fetch.continueRequest'' [(''requestId'', JStr ''interception-1'')]],
      params' = example_params, handlers' = [], done' = True, invoked = []\<rparr> \<and>
   constructor [] example_params [[Continue], [Continue, Continue]] =
     \<lparr>session' = [Command ''Fetch.continueRequest'' [(''requestId'', JStr ''interception-1'')]],
      params' = example_params, handlers' = [], done' = True,
      invoked = [[Continue], [Continue, Continue]]\<rparr>"
  using exhausted_chain_continues [of "[]" "[]" example_params]
    exhausted_chain_continues [of "[[Continue], [Continue, Continue]]" "[]" example_params]
  by (simp add: example_params_def)

section \<open>Fulfilling a request\<close>

text \<open>
  Claim C4, as amended. \<open>fulfill({status: 404, headers: {}, body})\<close> with \<open>body\<close> a
  \<open>Buffer\<close> of the five bytes of \<open>hello\<close> sends \<open>Fetch.fulfillRequest\<close> with
  \<open>responseCode\<close> 404, the one header \<open>content-length\<close> of value \<open>"5"\<close>, and the body
  \<open>aGVsbG8=\<close>, which is the base64 encoding of \<open>hello\<close> and decodes back to it.
\<close>

theorem fulfill_not_found_hello:
  "fulfill \<lparr>options_status = Some 404, options_headers = Some [],
            options_body = Some (BufferBody ''hello'')\<rparr> this =
     (Inr (),
      this\<lparr>done' := True,
           session' := session' this @
             [Command ''Fetch.fulfillRequest''
                [(''requestId'', JStr (requestId (params' this))),
                 (''responseCode'', JNum 404),
                 (''responseHeaders'',
                    JArr [JObj [(''name'', JStr ''content-length''), (''value'', JStr ''5'')]]),
                 (''body'', JStr ''aGVsbG8='')]]\<rparr>) \<and>
   toString_base64 ''hello'' = ''aGVsbG8='' \<and>
   base64_decode ''aGVsbG8='' = Some ''hello''"
proof -
  have enc: "toString_base64 ''hello'' = ''aGVsbG8=''"
    by code_simp
  have dec: "base64_decode ''aGVsbG8='' = Some ''hello''"
    by code_simp
  have len: "String (byteLength (BufferBody ''hello'')) = ''5''"
    by code_simp
  have sent: "fulfill \<lparr>options_status = Some 404, options_headers = Some [],
        options_body = Some (BufferBody ''hello'')\<rparr> this =
     (Inr (),
      this\<lparr>done' := True,
           session' := session' this @
             [Command ''Fetch.fulfillRequest''
                [(''requestId'', JStr (requestId (params' this))),
                 (''responseCode'', JNum 404),
                 (''responseHeaders'',
                    JArr [JObj [(''name'', JStr ''content-length''), (''value'', JStr ''5'')]]),
                 (''body'', JStr ''aGVsbG8='')]]\<rparr>)"
    using enc len by (simp add: fulfill_def send_def)
  show ?thesis
    by (rule conjI [OF sent conjI [OF enc dec]])
qed

text \<open>
  Claim C4 as stated fails: there the body is the string \<open>"hello"\<close>. The header
  \<open>content-length\<close> is still \<open>"5"\<close>, and the body sent is \<open>hello\<close> itself, since
  \<open>toString\<close> of a string ignores \<open>'base64'\<close>. That is not the base64 encoding of
  \<open>hello\<close>, and it is not base64 at all. The request is one whose only handler made no
  decision.
\<close>

theorem fulfill_string_body_counterexample:
  "fulfill \<lparr>options_status = Some 404, options_headers = Some [],
            options_body = Some (StringBody ''hello'')\<rparr>
      (constructor [] example_params [[]]) =
     (Inr (),
      \<lparr>session' =
         [Command ''Fetch.fulfillRequest''
            [(''requestId'', JStr ''interception-1''),
             (''responseCode'', JNum 404),
             (''responseHeaders'',
                JArr [JObj [(''name'', JStr ''content-length''), (''value'', JStr ''5'')]]),
             (''body'', JStr ''hello'')]],
       params' = example_params, handlers' = [], done' = True, invoked = [[]]\<rparr>) \<and>
   toString_base64 ''hello'' \<noteq> ''hello'' \<and>
   base64_decode ''hello'' = None"
proof -
  have enc: "toString_base64 ''hello'' \<noteq> ''hello''"
    by code_simp
  have dec: "base64_decode ''hello'' = None"
    by code_simp
  have len: "String (byteLength (StringBody ''hello'')) = ''5''"
    by code_simp
  have c: "constructor [] example_params [[]] =
      \<lparr>session' = [], params' = example_params, handlers' = [], done' = False, invoked = [[]]\<rparr>"
    by (simp add: constructor_def callNextHandler'_def)
  have rid: "requestId example_params = ''interception-1''"
    by (simp add: example_params_def)
  have sent: "fulfill \<lparr>options_status = Some 404, options_headers = Some [],
            options_body = Some (StringBody ''hello'')\<rparr>
      (constructor [] example_params [[]]) =
     (Inr (),
      \<lparr>session' =
         [Command ''Fetch.fulfillRequest''
            [(''requestId'', JStr ''interception-1''),
             (''responseCode'', JNum 404),
             (''responseHeaders'',
                JArr [JObj [(''name'', JStr ''content-length''), (''value'', JStr ''5'')]]),
             (''body'', JStr ''hello'')]],
       params' = example_params, handlers' = [], done' = True, invoked = [[]]\<rparr>)"
    using len by (simp add: fulfill_def send_def c rid)
  show ?thesis
    by (rule conjI [OF sent conjI [OF enc dec]])
qed

text \<open>\<open>toLowerCase\<close> leaves no upper-case ASCII letter, and changes nothing twice.\<close>

lemma lower_char_not_upper:
  "\<not> (65 \<le> (of_char (lower_char c) :: nat) \<and> (of_char (lower_char c) :: nat) \<le> 90)"
  by (auto simp: lower_char_def Let_def)

lemma toLowerCase_idem: "toLowerCase (toLowerCase s) = toLowerCase s"
  using lower_char_not_upper by (auto simp: toLowerCase_def lower_char_def Let_def)




section \<open>Failing a request\<close>

text \<open>
  Claim C7. On every request, pending or not, \<open>abort()\<close> and \<open>fail()\<close> do the same:
  they set \<open>done_\<close> and send \<open>Fetch.failRequest\<close> with the request id and the error
  reason \<open>Failed\<close>.
\<close>

theorem abort_fail_same:
  "abort this = fail this \<and>
   abort this =
     (Inr (),
      this\<lparr>done' := True,
           session' := session' this @
             [Command ''Fetch.failRequest''
                [(''requestId'', JStr (requestId (params' this))),
                 (''errorReason'', JStr ''Failed'')]]\<rparr>)"
  by (simp add: abort_def fail_def send_def)

section \<open>Deferring to the browser\<close>

text \<open>
  On a pending request \<open>deferToBrowser\<close> sends one \<open>Fetch.continueRequest\<close>: the
  truthy overrides in the order \<open>url\<close>, \<open>method\<close>, \<open>headers\<close>, then the request id.
  On a resolved request it is rejected and changes nothing.
\<close>

lemma deferToBrowser_pending:
  assumes "\<not> done' this"
  shows "deferToBrowser ovr this =
     (Inr (),
      this\<lparr>done' := True,
           session' := session' this @
             [Command ''Fetch.continueRequest''
                ((case and_field ovr override_url of
                    Some u \<Rightarrow> if u = [] then [] else [(''url'', JStr u)] | None \<Rightarrow> []) @
                 (case and_field ovr override_method of
                    Some m \<Rightarrow> if m = [] then [] else [(''method'', JStr m)] | None \<Rightarrow> []) @
                 (case and_field ovr override_headers of
                    Some h \<Rightarrow> [(''headers'', headers_object h)] | None \<Rightarrow> []) @
                 [(''requestId'', JStr (requestId (params' this)))])]\<rparr>)"
  using assms
  by (simp add: deferToBrowser_def resolve'_def send_def truthy_def Let_def
      split: option.splits)

lemma deferToBrowser_resolved:
  "done' this \<Longrightarrow> deferToBrowser ovr this = (Inl AlreadyResolved, this)"
  by (simp add: deferToBrowser_def resolve'_def Let_def)

text \<open>
  Claim C6, as amended. On a pending request \<open>deferToBrowser(overrides)\<close> sends one
  \<open>Fetch.continueRequest\<close>. Its parameters have distinct keys among \<open>requestId\<close>,
  \<open>url\<close>, \<open>method\<close> and \<open>headers\<close>; \<open>requestId\<close> is the request's id; \<open>url\<close> and
  \<open>method\<close> are there, with the value given, exactly when \<open>overrides\<close> gives them and
  they are not the empty string; \<open>headers\<close> is there exactly when \<open>overrides\<close> gives
  it, as the object of the given names and values. In particular
  \<open>deferToBrowser({method: "POST"})\<close> sends \<open>method\<close> and \<open>requestId\<close> only.
\<close>

theorem deferToBrowser_present_fields:
  assumes "\<not> done' this"
  shows "(\<exists>ps. deferToBrowser ovr this =
            (Inr (), this\<lparr>done' := True,
               session' := session' this @ [Command ''Fetch.continueRequest'' ps]\<rparr>) \<and>
          distinct (map fst ps) \<and>
          fst ` set ps \<subseteq> {''requestId'', ''url'', ''method'', ''headers''} \<and>
          map_of ps ''requestId'' = Some (JStr (requestId (params' this))) \<and>
          map_of ps ''url'' =
            (case and_field ovr override_url of
               Some u \<Rightarrow> if u = '''' then None else Some (JStr u)
             | None \<Rightarrow> None) \<and>
          map_of ps ''method'' =
            (case and_field ovr override_method of
               Some m \<Rightarrow> if m = '''' then None else Some (JStr m)
             | None \<Rightarrow> None) \<and>
          map_of ps ''headers'' =
            (case and_field ovr override_headers of
               Some h \<Rightarrow> Some (JObj (map (\<lambda>(name, v). (name, JStr v)) h))
             | None \<Rightarrow> None)) \<and>
         deferToBrowser
           (Some \<lparr>override_url = None, override_method = Some ''POST'', override_headers = None\<rparr>)
           this =
          (Inr (), this\<lparr>done' := True,
             session' := session' this @
               [Command ''Fetch.continueRequest''
                  [(''method'', JStr ''POST''),
                   (''requestId'', JStr (requestId (params' this)))]]\<rparr>)"
proof (rule conjI)
  show "deferToBrowser
           (Some \<lparr>override_url = None, override_method = Some ''POST'', override_headers = None\<rparr>)
           this =
          (Inr (), this\<lparr>done' := True,
             session' := session' this @
               [Command ''Fetch.continueRequest''
                  [(''method'', JStr ''POST''),
                   (''requestId'', JStr (requestId (params' this)))]]\<rparr>)"
    by (simp add: deferToBrowser_pending [OF assms] and_field_def)
next
  let ?ps = "(case and_field ovr override_url of
                    Some u \<Rightarrow> if u = [] then [] else [(''url'', JStr u)] | None \<Rightarrow> []) @
                 (case and_field ovr override_method of
                    Some m \<Rightarrow> if m = [] then [] else [(''method'', JStr m)] | None \<Rightarrow> []) @
                 (case and_field ovr override_headers of
                    Some h \<Rightarrow> [(''headers'', headers_object h)] | None \<Rightarrow> []) @
                 [(''requestId'', JStr (requestId (params' this)))]"
  have sent: "deferToBrowser ovr this =
            (Inr (), this\<lparr>done' := True,
               session' := session' this @ [Command ''Fetch.continueRequest'' ?ps]\<rparr>)"
    by (rule deferToBrowser_pending [OF assms])
  have keys: "distinct (map fst ?ps)"
    "fst ` set ?ps \<subseteq> {''requestId'', ''url'', ''method'', ''headers''}"
    by (auto split: option.splits)
  have "map_of ?ps ''requestId'' = Some (JStr (requestId (params' this)))"
    by (simp split: option.splits)
  moreover have "map_of ?ps ''url'' =
            (case and_field ovr override_url of
               Some u \<Rightarrow> if u = '''' then None else Some (JStr u)
             | None \<Rightarrow> None)"
    by (simp split: option.splits)
  moreover have "map_of ?ps ''method'' =
            (case and_field ovr override_method of
               Some m \<Rightarrow> if m = '''' then None else Some (JStr m)
             | None \<Rightarrow> None)"
    by (simp split: option.splits)
  moreover have "map_of ?ps ''headers'' =
            (case and_field ovr override_headers of
               Some h \<Rightarrow> Some (JObj (map (\<lambda>(name, v). (name, JStr v)) h))
             | None \<Rightarrow> None)"
    by (simp add: headers_object_def split: option.splits)
  ultimately show "\<exists>ps. deferToBrowser ovr this =
            (Inr (), this\<lparr>done' := True,
               session' := session' this @ [Command ''Fetch.continueRequest'' ps]\<rparr>) \<and>
          distinct (map fst ps) \<and>
          fst ` set ps \<subseteq> {''requestId'', ''url'', ''method'', ''headers''} \<and>
          map_of ps ''requestId'' = Some (JStr (requestId (params' this))) \<and>
          map_of ps ''url'' =
            (case and_field ovr override_url of
               Some u \<Rightarrow> if u = '''' then None else Some (JStr u)
             | None \<Rightarrow> None) \<and>
          map_of ps ''method'' =
            (case and_field ovr override_method of
               Some m \<Rightarrow> if m = '''' then None else Some (JStr m)
             | None \<Rightarrow> None) \<and>
          map_of ps ''headers'' =
            (case and_field ovr override_headers of
               Some h \<Rightarrow> Some (JObj (map (\<lambda>(name, v). (name, JStr v)) h))
             | None \<Rightarrow> None)"
    using sent keys by blast
qed

text \<open>
  Instances, on a request whose only handler made no decision:
  \<open>deferToBrowser({method: "POST"})\<close>, and
  \<open>deferToBrowser({url: "https://example.org/", headers: {"X-Test": "1"}})\<close>, whose
  command holds the url and the headers object as given, and no method.
\<close>

theorem deferToBrowser_present_fields_witness:
  "\<not> done' (constructor [] example_params [[]]) \<and>
   deferToBrowser
      (Some \<lparr>override_url = None, override_method = Some ''POST'', override_headers = None\<rparr>)
      (constructor [] example_params [[]]) =
     (Inr (),
      \<lparr>session' =
         [Command ''Fetch.continueRequest''
            [(''method'', JStr ''POST''), (''requestId'', JStr ''interception-1'')]],
       params' = example_params, handlers' = [], done' = True, invoked = [[]]\<rparr>) \<and>
   (\<exists>ps. deferToBrowser
      (Some \<lparr>override_url = Some ''https://example.org/'', override_method = None,
             override_headers = Some [(''X-Test'', ''1'')]\<rparr>)
      (constructor [] example_params [[]]) =
     (Inr (),
      \<lparr>session' = [Command ''Fetch.continueRequest'' ps],
       params' = example_params, handlers' = [], done' = True, invoked = [[]]\<rparr>) \<and>
     map_of ps ''requestId'' = Some (JStr ''interception-1'') \<and>
     map_of ps ''url'' = Some (JStr ''https://example.org/'') \<and>
     map_of ps ''method'' = None \<and>
     map_of ps ''headers'' = Some (JObj [(''X-Test'', JStr ''1'')]))"
proof -
  have c: "constructor [] example_params [[]] =
      \<lparr>session' = [], params' = example_params, handlers' = [], done' = False, invoked = [[]]\<rparr>"
    by (simp add: constructor_def callNextHandler'_def)
  have rid: "requestId example_params = ''interception-1''"
    by (simp add: example_params_def)
  have pending: "\<not> done' (constructor [] example_params [[]])"
    by (simp add: c)
  note t = deferToBrowser_present_fields [OF pending]
  have post: "deferToBrowser
      (Some \<lparr>override_url = None, override_method = Some ''POST'', override_headers = None\<rparr>)
      (constructor [] example_params [[]]) =
     (Inr (),
      \<lparr>session' =
         [Command ''Fetch.continueRequest''
            [(''method'', JStr ''POST''), (''requestId'', JStr ''interception-1'')]],
       params' = example_params, handlers' = [], done' = True, invoked = [[]]\<rparr>)"
    using t [THEN conjunct2] by (simp add: c rid)
  from t [THEN conjunct1,
      of "Some \<lparr>override_url = Some ''https://example.org/'', override_method = None,
             override_headers = Some [(''X-Test'', ''1'')]\<rparr>"]
  obtain ps where ps: "deferToBrowser
      (Some \<lparr>override_url = Some ''https://example.org/'', override_method = None,
             override_headers = Some [(''X-Test'', ''1'')]\<rparr>)
      (constructor [] example_params [[]]) =
        (Inr (), (constructor [] example_params [[]])\<lparr>done' := True,
           session' := session' (constructor [] example_params [[]]) @
             [Command ''Fetch.continueRequest'' ps]\<rparr>)"
    and "map_of ps ''requestId'' =
        Some (JStr (requestId (params' (constructor [] example_params [[]]))))"
    and "map_of ps ''url'' = Some (JStr ''https://example.org/'')"
    and "map_of ps ''method'' = None"
    and "map_of ps ''headers'' = Some (JObj [(''X-Test'', JStr ''1'')])"
    by (auto simp: and_field_def)
  then have "\<exists>ps. deferToBrowser
      (Some \<lparr>override_url = Some ''https://example.org/'', override_method = None,
             override_headers = Some [(''X-Test'', ''1'')]\<rparr>)
      (constructor [] example_params [[]]) =
     (Inr (),
      \<lparr>session' = [Command ''Fetch.continueRequest'' ps],
       params' = example_params, handlers' = [], done' = True, invoked = [[]]\<rparr>) \<and>
     map_of ps ''requestId'' = Some (JStr ''interception-1'') \<and>
     map_of ps ''url'' = Some (JStr ''https://example.org/'') \<and>
     map_of ps ''method'' = None \<and>
     map_of ps ''headers'' = Some (JObj [(''X-Test'', JStr ''1'')])"
    by (intro exI [of _ ps]) (simp add: c rid)
  with pending post show ?thesis
    by (intro conjI)
qed

text \<open>
  Claim C6 as stated fails for a field that is present and falsy:
  \<open>deferToBrowser({url: ""})\<close> on the same request has \<open>url\<close> in its overrides and
  sends the request id alone.
\<close>

theorem deferToBrowser_present_fields_counterexample:
  "override_url \<lparr>override_url = Some '''', override_method = None, override_headers = None\<rparr> =
     Some '''' \<and>
   deferToBrowser
      (Some \<lparr>override_url = Some '''', override_method = None, override_headers = None\<rparr>)
      (constructor [] example_params [[]]) =
     (Inr (),
      \<lparr>session' =
         [Command ''Fetch.continueRequest'' [(''requestId'', JStr ''interception-1'')]],
       params' = example_params, handlers' = [], done' = True, invoked = [[]]\<rparr>)"
proof -
  have c: "constructor [] example_params [[]] =
      \<lparr>session' = [], params' = example_params, handlers' = [], done' = False, invoked = [[]]\<rparr>"
    by (simp add: constructor_def callNextHandler'_def)
  have rid: "requestId example_params = ''interception-1''"
    by (simp add: example_params_def)
  have pending: "\<not> done' (constructor [] example_params [[]])"
    by (simp add: c)
  show ?thesis
    by (simp add: deferToBrowser_pending [OF pending] and_field_def) (simp add: c rid)
qed

text \<open>
  Claim C10. \<open>deferToBrowser\<close> tests its overrides by truthiness. On a pending request,
  \<open>deferToBrowser()\<close> with no argument sends the request id alone; so does
  \<open>deferToBrowser({url: "", method: ""})\<close>; and in general \<open>url\<close> and \<open>method\<close> are
  sent exactly when they are given and not the empty string, \<open>headers\<close> exactly when
  given.
\<close>

theorem deferToBrowser_truthiness:
  assumes "\<not> done' this"
  shows "deferToBrowser None this =
       (Inr (), this\<lparr>done' := True,
          session' := session' this @
            [Command ''Fetch.continueRequest''
               [(''requestId'', JStr (requestId (params' this)))]]\<rparr>) \<and>
     deferToBrowser
       (Some \<lparr>override_url = Some '''', override_method = Some '''', override_headers = None\<rparr>)
       this =
       (Inr (), this\<lparr>done' := True,
          session' := session' this @
            [Command ''Fetch.continueRequest''
               [(''requestId'', JStr (requestId (params' this)))]]\<rparr>) \<and>
     (\<exists>ps. deferToBrowser (Some ov) this =
         (Inr (), this\<lparr>done' := True,
            session' := session' this @ [Command ''Fetch.continueRequest'' ps]\<rparr>) \<and>
       (''url'' \<in> fst ` set ps) = (\<exists>u. override_url ov = Some u \<and> u \<noteq> '''') \<and>
       (''method'' \<in> fst ` set ps) = (\<exists>m. override_method ov = Some m \<and> m \<noteq> '''') \<and>
       (''headers'' \<in> fst ` set ps) = (\<exists>h. override_headers ov = Some h))"
proof (intro conjI)
  let ?ps = "(case override_url ov of
                    Some u \<Rightarrow> if u = [] then [] else [(''url'', JStr u)] | None \<Rightarrow> []) @
                 (case override_method ov of
                    Some m \<Rightarrow> if m = [] then [] else [(''method'', JStr m)] | None \<Rightarrow> []) @
                 (case override_headers ov of
                    Some h \<Rightarrow> [(''headers'', headers_object h)] | None \<Rightarrow> []) @
                 [(''requestId'', JStr (requestId (params' this)))]"
  have "deferToBrowser (Some ov) this =
         (Inr (), this\<lparr>done' := True,
            session' := session' this @ [Command ''Fetch.continueRequest'' ?ps]\<rparr>)"
    by (simp add: deferToBrowser_pending [OF assms] and_field_def)
  moreover have "(''url'' \<in> fst ` set ?ps) = (\<exists>u. override_url ov = Some u \<and> u \<noteq> '''')"
    by (cases "override_url ov"; cases "override_method ov"; cases "override_headers ov"; simp)
  moreover have "(''method'' \<in> fst ` set ?ps) = (\<exists>m. override_method ov = Some m \<and> m \<noteq> '''')"
    by (cases "override_url ov"; cases "override_method ov"; cases "override_headers ov"; simp)
  moreover have "(''headers'' \<in> fst ` set ?ps) = (\<exists>h. override_headers ov = Some h)"
    by (cases "override_url ov"; cases "override_method ov"; cases "override_headers ov"; simp)
  ultimately show "\<exists>ps. deferToBrowser (Some ov) this =
         (Inr (), this\<lparr>done' := True,
            session' := session' this @ [Command ''Fetch.continueRequest'' ps]\<rparr>) \<and>
       (''url'' \<in> fst ` set ps) = (\<exists>u. override_url ov = Some u \<and> u \<noteq> '''') \<and>
       (''method'' \<in> fst ` set ps) = (\<exists>m. override_method ov = Some m \<and> m \<noteq> '''') \<and>
       (''headers'' \<in> fst ` set ps) = (\<exists>h. override_headers ov = Some h)"
    by blast
qed (simp_all add: deferToBrowser_pending [OF assms] and_field_def)

text \<open>
  An instance: both calls on a request whose only handler made no decision.
\<close>

theorem deferToBrowser_truthiness_witness:
  "\<not> done' (constructor [] example_params [[]]) \<and>
   deferToBrowser
      (Some \<lparr>override_url = Some '''', override_method = Some '''', override_headers = None\<rparr>)
      (constructor [] example_params [[]]) =
     (Inr (),
      \<lparr>session' =
         [Command ''Fetch.continueRequest'' [(''requestId'', JStr ''interception-1'')]],
       params' = example_params, handlers' = [], done' = True, invoked = [[]]\<rparr>) \<and>
   deferToBrowser None (constructor [] example_params [[]]) =
     (Inr (),
      \<lparr>session' =
         [Command ''Fetch.continueRequest'' [(''requestId'', JStr ''interception-1'')]],
       params' = example_params, handlers' = [], done' = True, invoked = [[]]\<rparr>)"
proof -
  have c: "constructor [] example_params [[]] =
      \<lparr>session' = [], params' = example_params, handlers' = [], done' = False, invoked = [[]]\<rparr>"
    by (simp add: constructor_def callNextHandler'_def)
  have rid: "requestId example_params = ''interception-1''"
    by (simp add: example_params_def)
  have pending: "\<not> done' (constructor [] example_params [[]])"
    by (simp add: c)
  note t = deferToBrowser_truthiness [OF pending]
  from t [THEN conjunct1] t [THEN conjunct2, THEN conjunct1] pending show ?thesis
    by (simp add: c rid)
qed

section \<open>Where the check of \<open>resolve_\<close> holds\<close>

text \<open>
  Handlers that decide through \<open>continue()\<close> and \<open>deferToBrowser()\<close> only reach
  \<open>resolve_\<close> on every decision: a resolved request is sent nothing more, and a
  request is sent at most one command, however often the handlers call.
\<close>

lemma resolve_once:
  "session' (snd (resolve' ps this)) =
     (if done' this then session' this
      else session' this @
        [Command ''Fetch.continueRequest''
           (assign ''requestId'' (JStr (requestId (params' this))) ps)])"
  "done' (snd (resolve' ps this))"
  by (simp_all add: resolve'_def send_def)

lemma run_guarded_resolved:
  "list_all guarded cs \<Longrightarrow> list_all (list_all guarded) (handlers' this) \<Longrightarrow> done' this \<Longrightarrow>
   session' (run cs this) = session' this \<and> done' (run cs this)"
proof (induction cs this rule: run.induct)
  case (4 cs this)
  show ?case
  proof (cases "handlers' this")
    case Nil
    then have c: "continue this = (None, snd (resolve' [] this))"
      by (simp add: continue_def callNextHandler'_def)
    from "4.IH"(1) [OF c [symmetric] refl] "4.prems" Nil show ?thesis
      by (simp add: c resolve'_def)
  next
    case (Cons h hs)
    then have c: "continue this =
        (Some h, this\<lparr>handlers' := hs, invoked := invoked this @ [h]\<rparr>)"
      by (simp add: continue_def callNextHandler'_def)
    from "4.IH"(2) [OF c [symmetric] refl] "4.prems" Cons show ?thesis
      by (simp add: c)
  qed
next
  case (5 ovr cs this)
  then show ?case
    by (simp add: deferToBrowser_resolved deferToBrowser_frame)
qed simp_all

lemma run_guarded_once:
  "list_all guarded cs \<Longrightarrow> list_all (list_all guarded) (handlers' this) \<Longrightarrow>
   length (session' (run cs this)) \<le> Suc (length (session' this))"
proof (induction cs this rule: run.induct)
  case (4 cs this)
  show ?case
  proof (cases "handlers' this")
    case Nil
    then have c: "continue this = (None, snd (resolve' [] this))"
      by (simp add: continue_def callNextHandler'_def)
    have "session' (run cs (snd (resolve' [] this))) = session' (snd (resolve' [] this))"
      using run_guarded_resolved [of cs "snd (resolve' [] this)"] "4.prems" Nil
      by (simp add: resolve_frame resolve_once)
    then show ?thesis
      by (simp add: c resolve_once)
  next
    case (Cons h hs)
    then have c: "continue this =
        (Some h, this\<lparr>handlers' := hs, invoked := invoked this @ [h]\<rparr>)"
      by (simp add: continue_def callNextHandler'_def)
    from "4.IH"(2) [OF c [symmetric] refl] "4.prems" Cons show ?thesis
      by (simp add: c)
  qed
next
  case (5 ovr cs this)
  show ?case
  proof (cases "done' this")
    case True
    with 5 show ?thesis
      by (simp add: deferToBrowser_resolved)
  next
    case False
    have "session' (run cs (snd (deferToBrowser ovr this))) = session' (snd (deferToBrowser ovr this))"
      using run_guarded_resolved [of cs "snd (deferToBrowser ovr this)"] "5.prems"
      by (simp add: deferToBrowser_frame deferToBrowser_pending [OF False])
    then show ?thesis
      by (simp add: deferToBrowser_pending [OF False])
  qed
qed simp_all

section \<open>What the accessors return\<close>

text \<open>No call takes a command back from the session.\<close>

lemma run_session_extends:
  "\<exists>sent. session' (run cs this) = session' this @ sent"
proof (induction cs this rule: run.induct)
  case (4 cs this)
  show ?case
  proof (cases "handlers' this")
    case Nil
    then have c: "continue this = (None, snd (resolve' [] this))"
      by (simp add: continue_def callNextHandler'_def)
    from "4.IH"(1) [OF c [symmetric] refl] show ?thesis
      by (auto simp: c resolve_once)
  next
    case (Cons h hs)
    then have c: "continue this =
        (Some h, this\<lparr>handlers' := hs, invoked := invoked this @ [h]\<rparr>)"
      by (simp add: continue_def callNextHandler'_def)
    from "4.IH"(2) [OF c [symmetric] refl] show ?thesis
      by (simp add: c)
  qed
next
  case (5 ovr cs this)
  then show ?case
    by (cases "done' this") (auto simp: deferToBrowser_resolved deferToBrowser_pending)
next
  case (6 opts cs this)
  then show ?case
    by (auto simp: fulfill_def send_def Let_def split: prod.splits)
qed (auto simp: abort_def fail_def send_def)


text \<open>
  Claim C9. The accessors read \<open>params_\<close> and change nothing, and no call on the request
  changes \<open>params_\<close>: after any calls \<open>url()\<close>, \<open>method()\<close>, \<open>headers()\<close> and
  \<open>resourceType()\<close> return what they returned before, which on a constructed request
  is what the notification held, whether or not the request is resolved. \<open>headers()\<close>
  is empty when the notification has no headers. The calls change \<open>handlers_\<close> and
  \<open>done_\<close> only; the session that \<open>session_\<close> refers to receives the commands.
\<close>

theorem accessors_pure:
  "params' (run cs this) = params' this \<and>
   url (run cs this) = url this \<and>
   method' (run cs this) = method' this \<and>
   headers (run cs this) = headers this \<and>
   resourceType (run cs this) = resourceType this \<and>
   url (run cs (constructor session ps hs)) = request_url (request ps) \<and>
   method' (run cs (constructor session ps hs)) = request_method (request ps) \<and>
   headers (run cs (constructor session ps hs)) =
     (case request_headers (request ps) of None \<Rightarrow> [] | Some h \<Rightarrow> h) \<and>
   resourceType (run cs (constructor session ps hs)) = params_resourceType ps \<and>
   headers (run cs (constructor session
      (ps\<lparr>request := (request ps)\<lparr>request_headers := None\<rparr>\<rparr>) hs)) = []"
  by (simp add: url_def method'_def headers_def resourceType_def run_params constructor_params)


end
